theory Spec2Isabelle
  imports Main
begin

section \<open>The N-dimensional lazy segment tree of \<^verbatim>\<open>src/ndsegtree.h\<close>\<close>

text \<open>
  The template parameter \<^verbatim>\<open>n\<close> (the number of axes) is the first argument \<open>n\<close> of every
  function below; \<^verbatim>\<open>N = 1 << n\<close> is written \<open>2 ^ n\<close>. A \<^verbatim>\<open>std::array<int, n>\<close> is an
  \<open>int list\<close> of which the entries \<open>0..<n\<close> are read. The C++ \<^verbatim>\<open>int\<close> is modelled by the
  unbounded \<open>int\<close>, except in the midpoint of \<^verbatim>\<open>Center\<close>, where the sum of two coordinates
  wraps around at 32 bits (\<open>int32\<close> below). Node indices \<^verbatim>\<open>v\<close> are never negative and are
  modelled as \<open>nat\<close>.
\<close>

subsection \<open>Outcomes\<close>

text \<open>
  \<open>OutOfBounds\<close>: an access \<^verbatim>\<open>vec[i]\<close> with \<open>i\<close> outside of the vector (undefined behaviour
  in C++). \<open>AllocFailure\<close>: a \<^verbatim>\<open>std::vector\<close> constructed with a negative size (the
  conversion to \<^verbatim>\<open>size_t\<close> makes the constructor throw). \<open>OutOfFuel\<close>: the recursion was
  cut off by the fuel argument of the model; a call that yields \<open>OutOfFuel\<close> for every
  amount of fuel does not return.
\<close>

datatype error = OutOfBounds | AllocFailure | OutOfFuel

definition bnd :: "error + 'a \<Rightarrow> ('a \<Rightarrow> error + 'b) \<Rightarrow> error + 'b" where
  "bnd x f = (case x of Inl e \<Rightarrow> Inl e | Inr a \<Rightarrow> f a)"

text \<open>A \<^verbatim>\<open>for\<close> loop over a list of indices whose body may fail; the first failure ends it.\<close>

fun foldM :: "('a \<Rightarrow> 's \<Rightarrow> error + 's) \<Rightarrow> 'a list \<Rightarrow> 's \<Rightarrow> error + 's" where
  "foldM f [] s = Inr s"
| "foldM f (x # xs) s = (case f x s of Inl e \<Rightarrow> Inl e | Inr s' \<Rightarrow> foldM f xs s')"

subsection \<open>\<^verbatim>\<open>Cube<n>\<close>\<close>

record cube =
  l :: "int list"
  r :: "int list"

text \<open>C++ integer division truncates toward zero.\<close>

definition cdiv :: "int \<Rightarrow> int \<Rightarrow> int" where
  "cdiv a b = sgn a * sgn b * (\<bar>a\<bar> div \<bar>b\<bar>)"

definition Volume :: "nat \<Rightarrow> cube \<Rightarrow> int" where
  "Volume n c = fold (\<lambda>i prod. prod * (r c ! i - l c ! i)) [0..<n] 1"

text \<open>
  The value that a 32-bit two's complement \<^verbatim>\<open>int\<close> holds after an operation whose exact
  result is \<open>x\<close>. Signed overflow is undefined behaviour in C++; the compiled code wraps
  around.
\<close>

definition int32 :: "int \<Rightarrow> int" where
  "int32 x = (x + 2147483648) mod 4294967296 - 2147483648"

text \<open>\<^verbatim>\<open>center[i] = (l[i] + r[i]) / 2\<close>, the sum computed in 32 bits.\<close>

definition Center :: "nat \<Rightarrow> cube \<Rightarrow> int list" where
  "Center n c = map (\<lambda>i. cdiv (int32 (l c ! i + r c ! i)) 2) [0..<n]"

text \<open>The quadrant of bit pattern \<open>i\<close>; \<^verbatim>\<open>i & (1 << k)\<close> is non-zero iff bit \<open>k\<close> of \<open>i\<close> is set.\<close>

definition quadrant :: "nat \<Rightarrow> cube \<Rightarrow> int list \<Rightarrow> nat \<Rightarrow> cube" where
  "quadrant n c m i =
     \<lparr>l = map (\<lambda>k. if bit i k then l c ! k else m ! k) [0..<n],
      r = map (\<lambda>k. if bit i k then m ! k else r c ! k) [0..<n]\<rparr>"

definition Subdivide :: "nat \<Rightarrow> cube \<Rightarrow> cube list" where
  "Subdivide n c = (let m = Center n c in map (quadrant n c m) [0..<2 ^ n])"

definition IsEmpty :: "nat \<Rightarrow> cube \<Rightarrow> bool" where
  "IsEmpty n c = (Volume n c = 0)"

definition IsPoint :: "nat \<Rightarrow> cube \<Rightarrow> bool" where
  "IsPoint n c = (Volume n c = 1)"

text \<open>\<^verbatim>\<open>operator==\<close>: false at the first axis on which a bound differs.\<close>

definition cube_eq :: "nat \<Rightarrow> cube \<Rightarrow> cube \<Rightarrow> bool" where
  "cube_eq n c other =
     list_all (\<lambda>i. \<not> (l c ! i \<noteq> l other ! i \<or> r c ! i \<noteq> r other ! i)) [0..<n]"

definition IntersectWith :: "nat \<Rightarrow> cube \<Rightarrow> cube \<Rightarrow> cube" where
  "IntersectWith n c other =
     \<lparr>l = map (\<lambda>i. let lo = max (l c ! i) (l other ! i); hi = min (r c ! i) (r other ! i)
                  in if lo \<ge> hi then 0 else lo) [0..<n],
      r = map (\<lambda>i. let lo = max (l c ! i) (l other ! i); hi = min (r c ! i) (r other ! i)
                  in if lo \<ge> hi then 0 else hi) [0..<n]\<rparr>"

subsection \<open>\<^verbatim>\<open>Operation\<close>\<close>

record operation =
  reset_pending :: bool
  to_add :: int

definition Evaluate :: "nat \<Rightarrow> operation \<Rightarrow> int \<Rightarrow> cube \<Rightarrow> int" where
  "Evaluate n this val domain =
     (if reset_pending this then Volume n domain * to_add this
      else val + Volume n domain * to_add this)"

definition ComposeWith :: "operation \<Rightarrow> operation \<Rightarrow> operation" where
  "ComposeWith this other =
     (if reset_pending other then other
      else this\<lparr>to_add := to_add this + to_add other\<rparr>)"

text \<open>\<^verbatim>\<open>memset(this, 0, sizeof(*this))\<close>: the flag is false and the amount is zero.\<close>

definition Reset :: "operation \<Rightarrow> operation" where
  "Reset this = \<lparr>reset_pending = False, to_add = 0\<rparr>"

subsection \<open>\<^verbatim>\<open>SegmentTree<n>\<close>\<close>

text \<open>The fields \<^verbatim>\<open>entire_domain_\<close>, \<^verbatim>\<open>tree_\<close> and \<^verbatim>\<open>operations_\<close>.\<close>

record segtree =
  entire_domain :: cube
  tree :: "int list"
  operations :: "operation list"

definition dims :: "segtree \<Rightarrow> int list" where
  "dims s = r (entire_domain s)"

definition Child :: "nat \<Rightarrow> nat \<Rightarrow> nat \<Rightarrow> nat" where
  "Child n v i = 2 ^ n * v + i + 1"

text \<open>\<^verbatim>\<open>operations_[v] = x\<close> and \<^verbatim>\<open>tree_[v] = x\<close>, with the index checked.\<close>

definition set_operation :: "nat \<Rightarrow> operation \<Rightarrow> segtree \<Rightarrow> error + segtree" where
  "set_operation v x s =
     (if v < length (operations s) then Inr (s\<lparr>operations := (operations s)[v := x]\<rparr>)
      else Inl OutOfBounds)"

definition set_tree :: "nat \<Rightarrow> int \<Rightarrow> segtree \<Rightarrow> error + segtree" where
  "set_tree v x s =
     (if v < length (tree s) then Inr (s\<lparr>tree := (tree s)[v := x]\<rparr>)
      else Inl OutOfBounds)"

definition UpdateValueFromBelow :: "nat \<Rightarrow> nat \<Rightarrow> segtree \<Rightarrow> error + segtree" where
  "UpdateValueFromBelow n v s =
     bnd (foldM (\<lambda>i sum. if Child n v i < length (tree s)
                          then Inr (sum + tree s ! Child n v i) else Inl OutOfBounds)
            [0..<2 ^ n] 0)
       (\<lambda>sum. set_tree v sum s)"

definition UpdateValueFromAbove :: "nat \<Rightarrow> nat \<Rightarrow> cube \<Rightarrow> segtree \<Rightarrow> error + segtree" where
  "UpdateValueFromAbove n v domain s =
     (if v < length (operations s) \<and> v < length (tree s)
      then set_tree v (Evaluate n (operations s ! v) (tree s ! v) domain) s
      else Inl OutOfBounds)"

definition EvaluateAny :: "nat \<Rightarrow> nat \<Rightarrow> cube \<Rightarrow> operation \<Rightarrow> segtree \<Rightarrow> error + segtree" where
  "EvaluateAny n v domain op s =
     (if v < length (operations s) then
        bnd (set_operation v (ComposeWith (operations s ! v) op) s) (\<lambda>s1.
        bnd (UpdateValueFromAbove n v domain s1) (\<lambda>s2.
        if IsPoint n domain then set_operation v (Reset (operations s2 ! v)) s2
        else Inr s2))
      else Inl OutOfBounds)"

text \<open>One round of the loop of \<^verbatim>\<open>Push\<close>, for the child \<open>i\<close>.\<close>

definition Push_child :: "nat \<Rightarrow> nat \<Rightarrow> cube list \<Rightarrow> nat \<Rightarrow> segtree \<Rightarrow> error + segtree" where
  "Push_child n v quads i s =
     (let quad = quads ! i in
      if Child n v i < length (operations s) \<and> v < length (operations s) then
        bnd (set_operation (Child n v i)
               (ComposeWith (operations s ! Child n v i) (operations s ! v)) s) (\<lambda>s1.
        if IsPoint n quad then
          bnd (UpdateValueFromAbove n (Child n v i) quad s1) (\<lambda>s2.
          set_operation (Child n v i) (Reset (operations s2 ! Child n v i)) s2)
        else Inr s1)
      else Inl OutOfBounds)"

definition Push :: "nat \<Rightarrow> nat \<Rightarrow> cube \<Rightarrow> cube list \<Rightarrow> segtree \<Rightarrow> error + segtree" where
  "Push n v domain quads s =
     bnd (foldM (Push_child n v quads) [0..<2 ^ n] s) (\<lambda>s1.
     bnd (UpdateValueFromAbove n v domain s1) (\<lambda>s2.
     if v < length (operations s2) then set_operation v (Reset (operations s2 ! v)) s2
     else Inl OutOfBounds))"

fun ApplyOperationR ::
  "nat \<Rightarrow> nat \<Rightarrow> nat \<Rightarrow> cube \<Rightarrow> cube \<Rightarrow> operation \<Rightarrow> segtree \<Rightarrow> error + segtree" where
  "ApplyOperationR 0 n v query_domain domain op s = Inl OutOfFuel"
| "ApplyOperationR (Suc fuel) n v query_domain domain op s =
     (if cube_eq n query_domain domain then EvaluateAny n v query_domain op s
      else
        let quads = Subdivide n domain in
        bnd (Push n v domain quads s) (\<lambda>s1.
        bnd (foldM (\<lambda>i st.
                 let quad = quads ! i; query_sub = IntersectWith n quad query_domain in
                 if \<not> IsEmpty n query_sub
                 then ApplyOperationR fuel n (Child n v i) query_sub quad op st
                 else Inr st)
               [0..<2 ^ n] s1) (\<lambda>s2.
        UpdateValueFromBelow n v s2)))"

fun QueryRangeR ::
  "nat \<Rightarrow> nat \<Rightarrow> nat \<Rightarrow> cube \<Rightarrow> cube \<Rightarrow> segtree \<Rightarrow> error + (int \<times> segtree)" where
  "QueryRangeR 0 n v query_domain domain s = Inl OutOfFuel"
| "QueryRangeR (Suc fuel) n v query_domain domain s =
     (if cube_eq n query_domain domain
      then (if v < length (tree s) then Inr (tree s ! v, s) else Inl OutOfBounds)
      else
        let quads = Subdivide n domain in
        bnd (Push n v domain quads s) (\<lambda>s1.
        foldM (\<lambda>i (sum, st).
                 let quad = quads ! i; query_sub = IntersectWith n quad query_domain in
                 if \<not> IsEmpty n query_sub
                 then bnd (QueryRangeR fuel n (Child n v i) query_sub quad st)
                        (\<lambda>(x, st'). Inr (sum + x, st'))
                 else Inr (sum, st))
          [0..<2 ^ n] (0, s1)))"

definition Linear :: "nat \<Rightarrow> int list \<Rightarrow> int list \<Rightarrow> int" where
  "Linear n ds coords = fold (\<lambda>i idx. ds ! i * idx + coords ! (i + 1)) [0..<n - 1] (coords ! 0)"

text \<open>
  \<^verbatim>\<open>coords.front()\<close> on an array of length 0 and \<^verbatim>\<open>arr[idx]\<close> outside of \<^verbatim>\<open>arr\<close> are
  undefined behaviour.
\<close>

fun BuildTreeR :: "nat \<Rightarrow> nat \<Rightarrow> int list \<Rightarrow> cube \<Rightarrow> nat \<Rightarrow> segtree \<Rightarrow> error + segtree" where
  "BuildTreeR 0 n arr domain v s = Inl OutOfFuel"
| "BuildTreeR (Suc fuel) n arr domain v s =
     (if IsPoint n domain then
        (let idx = Linear n (dims s) (l domain) in
         if 0 < n \<and> 0 \<le> idx \<and> nat idx < length arr then set_tree v (arr ! nat idx) s
         else Inl OutOfBounds)
      else
        let quads = Subdivide n domain in
        bnd (foldM (\<lambda>i st. BuildTreeR fuel n arr (quads ! i) (Child n v i) st) [0..<2 ^ n] s)
          (\<lambda>s1. UpdateValueFromBelow n v s1))"

definition BuildTree :: "nat \<Rightarrow> nat \<Rightarrow> int list \<Rightarrow> segtree \<Rightarrow> error + segtree" where
  "BuildTree fuel n arr s =
     (let domain = \<lparr>l = replicate n 0, r = dims s\<rparr> in BuildTreeR fuel n arr domain 0 s)"

text \<open>The constructor \<^verbatim>\<open>SegmentTree(arr, dims)\<close>.\<close>

definition SegmentTree :: "nat \<Rightarrow> nat \<Rightarrow> int list \<Rightarrow> int list \<Rightarrow> error + segtree" where
  "SegmentTree fuel n arr ds =
     (let entire = \<lparr>l = replicate n 0, r = ds\<rparr>;
          tree_size = 4 * Volume n entire in
      if tree_size < 0 then Inl AllocFailure
      else BuildTree fuel n arr
             \<lparr>entire_domain = entire,
              tree = replicate (nat tree_size) 0,
              operations = replicate (nat tree_size) \<lparr>reset_pending = False, to_add = 0\<rparr>\<rparr>)"

definition ApplyToRange :: "nat \<Rightarrow> nat \<Rightarrow> cube \<Rightarrow> operation \<Rightarrow> segtree \<Rightarrow> error + segtree" where
  "ApplyToRange fuel n domain op s = ApplyOperationR fuel n 0 domain (entire_domain s) op s"

definition AssignRange :: "nat \<Rightarrow> nat \<Rightarrow> cube \<Rightarrow> int \<Rightarrow> segtree \<Rightarrow> error + segtree" where
  "AssignRange fuel n domain val s =
     ApplyToRange fuel n domain \<lparr>reset_pending = True, to_add = val\<rparr> s"

definition AddToRange :: "nat \<Rightarrow> nat \<Rightarrow> cube \<Rightarrow> int \<Rightarrow> segtree \<Rightarrow> error + segtree" where
  "AddToRange fuel n domain inc s =
     ApplyToRange fuel n domain \<lparr>reset_pending = False, to_add = inc\<rparr> s"

definition QueryRange :: "nat \<Rightarrow> nat \<Rightarrow> cube \<Rightarrow> segtree \<Rightarrow> error + (int \<times> segtree)" where
  "QueryRange fuel n domain s = QueryRangeR fuel n 0 domain (entire_domain s) s"

definition Get :: "nat \<Rightarrow> nat \<Rightarrow> int list \<Rightarrow> segtree \<Rightarrow> error + (int \<times> segtree)" where
  "Get fuel n I s = QueryRange fuel n \<lparr>l = I, r = map (\<lambda>i. I ! i + 1) [0..<n]\<rparr> s"

section \<open>Notions used in the statements\<close>


text \<open>The box \<open>q\<close> is not empty and lies within the box \<open>d\<close>.\<close>

definition inside :: "nat \<Rightarrow> cube \<Rightarrow> cube \<Rightarrow> bool" where
  "inside n q d =
     list_all (\<lambda>k. l d ! k \<le> l q ! k \<and> l q ! k < r q ! k \<and> r q ! k \<le> r d ! k) [0..<n]"

text \<open>
  The states a client can reach: whatever the constructor returns, and whatever a public
  operation that returns leaves behind (\<^verbatim>\<open>AssignRange\<close> and \<^verbatim>\<open>AddToRange\<close> are
  \<^verbatim>\<open>ApplyToRange\<close> with the two kinds of operation, \<^verbatim>\<open>Get\<close> is a \<^verbatim>\<open>QueryRange\<close>).
\<close>

inductive reachable :: "nat \<Rightarrow> segtree \<Rightarrow> bool" for n :: nat where
  built: "SegmentTree fuel n arr ds = Inr s \<Longrightarrow> reachable n s"
| applied: "reachable n s \<Longrightarrow> ApplyToRange fuel n D op s = Inr s' \<Longrightarrow> reachable n s'"
| queried: "reachable n s \<Longrightarrow> QueryRange fuel n D s = Inr (x, s') \<Longrightarrow> reachable n s'"

text \<open>The node indices below \<open>v\<close> in the implicit \<open>2 ^ n\<close>-ary tree, \<open>v\<close> included.\<close>

inductive_set subtree :: "nat \<Rightarrow> nat \<Rightarrow> nat set" for n :: nat and v :: nat where
  root: "v \<in> subtree n v"
| child: "u \<in> subtree n v \<Longrightarrow> i < 2 ^ n \<Longrightarrow> Child n u i \<in> subtree n v"

text \<open>
  Two states have the same entire domain, vectors of the same lengths, and the same entries
  at the indices in \<open>A\<close>.
\<close>

definition agree_on :: "nat set \<Rightarrow> segtree \<Rightarrow> segtree \<Rightarrow> bool" where
  "agree_on A s t \<longleftrightarrow>
     entire_domain s = entire_domain t \<and>
     length (tree s) = length (tree t) \<and> length (operations s) = length (operations t) \<and>
     (\<forall>u\<in>A. tree s ! u = tree t ! u \<and> operations s ! u = operations t ! u)"

text \<open>The body of the loop over the quadrants in \<^verbatim>\<open>QueryRangeR\<close>, with fuel \<open>fuel\<close> for the calls.\<close>

definition Query_child ::
  "nat \<Rightarrow> nat \<Rightarrow> nat \<Rightarrow> cube \<Rightarrow> cube list \<Rightarrow> nat \<Rightarrow> int \<times> segtree \<Rightarrow> error + (int \<times> segtree)" where
  "Query_child fuel n v query_domain quads i =
     (\<lambda>(sum, st).
        let quad = quads ! i; query_sub = IntersectWith n quad query_domain in
        if \<not> IsEmpty n query_sub
        then bnd (QueryRangeR fuel n (Child n v i) query_sub quad st)
               (\<lambda>(x, st'). Inr (sum + x, st'))
        else Inr (sum, st))"

text \<open>The state in which the constructor starts \<^verbatim>\<open>BuildTree\<close> for the extents \<open>[2, 3]\<close>.\<close>

definition s23 :: segtree where
  "s23 = \<lparr>entire_domain = \<lparr>l = [0, 0], r = [2, 3]\<rparr>, tree = replicate 24 0,
        operations = replicate 24 \<lparr>reset_pending = False, to_add = 0\<rparr>\<rparr>"

text \<open>
  Three states of the one-dimensional tree over \<open>[0, 2)\<close> built from \<open>[3, 4]\<close>: as built,
  after \<open>add_range([0,2), 1)\<close>, and after \<open>query_range([0,1))\<close> on that.
\<close>

definition st_built :: segtree where
  "st_built = \<lparr>entire_domain = \<lparr>l = [0], r = [2]\<rparr>, tree = [7, 4, 3, 0, 0, 0, 0, 0],
        operations = replicate 8 \<lparr>reset_pending = False, to_add = 0\<rparr>\<rparr>"

definition st_added :: segtree where
  "st_added = \<lparr>entire_domain = \<lparr>l = [0], r = [2]\<rparr>, tree = [9, 4, 3, 0, 0, 0, 0, 0],
        operations = \<lparr>reset_pending = False, to_add = 1\<rparr> #
                     replicate 7 \<lparr>reset_pending = False, to_add = 0\<rparr>\<rparr>"

definition st_pushed :: segtree where
  "st_pushed = \<lparr>entire_domain = \<lparr>l = [0], r = [2]\<rparr>, tree = [11, 5, 4, 0, 0, 0, 0, 0],
        operations = replicate 8 \<lparr>reset_pending = False, to_add = 0\<rparr>\<rparr>"

section \<open>Evaluation helpers\<close>

lemma upt4: "[0..<4] = [0, 1, 2, 3::nat]"
  by code_simp

text \<open>
  The model on the scenario of the specification (extents \<open>[4, 4]\<close>, all cells 0,
  \<open>add_range([0,2) \<times> [0,2), 3)\<close>, \<open>assign_range([1,3) \<times> [1,3), 7)\<close>): the total is 37 and
  the cells \<open>(0,0)\<close>, \<open>(1,1)\<close>, \<open>(3,3)\<close> hold 3, 7 and 0. And a \<open>2 \<times> 2\<close> grid returns the
  entries of its array cell by cell.
\<close>

lemma scenario_4x4:
  "bnd (SegmentTree 3 2 (replicate 16 0) [4, 4]) (\<lambda>s.
   bnd (AddToRange 3 2 \<lparr>l = [0, 0], r = [2, 2]\<rparr> 3 s) (\<lambda>s.
   bnd (AssignRange 3 2 \<lparr>l = [1, 1], r = [3, 3]\<rparr> 7 s) (\<lambda>s.
   bnd (QueryRange 3 2 \<lparr>l = [0, 0], r = [4, 4]\<rparr> s) (\<lambda>(total, s).
   bnd (Get 3 2 [0, 0] s) (\<lambda>(a, s).
   bnd (Get 3 2 [1, 1] s) (\<lambda>(b, s).
   bnd (Get 3 2 [3, 3] s) (\<lambda>(c, s). Inr (total, a, b, c)))))))) = Inr (37, 3, 7, 0)"
  by code_simp

lemma roundtrip_2x2:
  "bnd (SegmentTree 2 2 [10, 11, 12, 13] [2, 2]) (\<lambda>s.
   bnd (Get 2 2 [0, 0] s) (\<lambda>(a, s).
   bnd (Get 2 2 [0, 1] s) (\<lambda>(b, s).
   bnd (Get 2 2 [1, 0] s) (\<lambda>(c, s).
   bnd (Get 2 2 [1, 1] s) (\<lambda>(d, s). Inr (a, b, c, d)))))) = Inr (10, 11, 12, 13)"
  by code_simp

section \<open>Subdivision of a cube\<close>

lemma fold_mult_prod_list:
  "fold (\<lambda>i p. p * f i) xs (a::int) = a * prod_list (map f xs)"
  by (induction xs arbitrary: a) (simp_all add: mult.assoc)

lemma Volume_prod: "Volume n c = (\<Prod>k<n. r c ! k - l c ! k)"
proof -
  have "prod_list (map (\<lambda>k. r c ! k - l c ! k) [0..<n]) = (\<Prod>k\<in>set [0..<n]. r c ! k - l c ! k)"
    by (rule prod.distinct_set_conv_list [symmetric]) simp
  then show ?thesis
    by (simp add: Volume_def fold_mult_prod_list atLeast0LessThan)
qed






















section \<open>Termination of the constructor\<close>

text \<open>
  A cube that is not a point and whose quadrant 0 is the cube itself: \<^verbatim>\<open>BuildTreeR\<close>
  descends into it forever. In two dimensions the empty cube \<open>[0,0) \<times> [1,2)\<close> is one.
\<close>

lemma BuildTreeR_self_quadrant:
  assumes "\<not> IsPoint n c" and "Subdivide n c ! 0 = c"
  shows "BuildTreeR fuel n arr c v s = Inl OutOfFuel"
proof (induction fuel arbitrary: v s)
  case 0
  show ?case by simp
next
  case (Suc fuel)
  have "[0..<2 ^ n] = 0 # [1..<2 ^ n]"
    by (simp add: upt_conv_Cons)
  with assms show ?case
    by (simp add: Suc.IH bnd_def del: upt_Suc)
qed

lemma BuildTreeR_empty_diverges:
  "BuildTreeR fuel 2 arr \<lparr>l = [0, 1], r = [0, 2]\<rparr> v s = Inl OutOfFuel"
  by (rule BuildTreeR_self_quadrant; code_simp)

lemma root_not_point: "IsPoint 2 \<lparr>l = [0, 0], r = [1, 2]\<rparr> = False"
  by code_simp

lemma root_quads: "Subdivide 2 \<lparr>l = [0, 0], r = [1, 2]\<rparr> =
  [\<lparr>l = [0, 1], r = [1, 2]\<rparr>, \<lparr>l = [0, 1], r = [0, 2]\<rparr>,
   \<lparr>l = [0, 0], r = [1, 1]\<rparr>, \<lparr>l = [0, 0], r = [0, 1]\<rparr>]"
  by code_simp

lemma child0_point: "IsPoint 2 \<lparr>l = [0, 1], r = [1, 2]\<rparr> = True"
  by code_simp

lemma child0_linear: "Linear 2 [1, 2] [0, 1] = 1"
  by code_simp

lemma ctor_start:
  "SegmentTree fuel 2 [5, 6] [1, 2] =
     BuildTreeR fuel 2 [5, 6] \<lparr>l = [0, 0], r = [1, 2]\<rparr> 0
       \<lparr>entire_domain = \<lparr>l = [0, 0], r = [1, 2]\<rparr>, tree = replicate 8 0,
        operations = replicate 8 \<lparr>reset_pending = False, to_add = 0\<rparr>\<rparr>"
proof -
  have "Volume 2 \<lparr>l = [0, 0], r = [1, 2]\<rparr> = 2" by code_simp
  moreover have "replicate 2 (0::int) = [0, 0]" by code_simp
  ultimately show ?thesis
    by (simp add: SegmentTree_def BuildTree_def dims_def Let_def)
qed

text \<open>
  Claim C4 (every construction with positive extents and an array of matching length
  terminates). The code at the input \<open>n = 2\<close>, \<open>dims = [1, 2]\<close>, \<open>arr = [5, 6]\<close>:
  whatever the fuel, the constructor runs out of it, that is, the recursive build does
  not return.
\<close>

theorem SegmentTree_1x2_diverges:
  "SegmentTree fuel 2 [5, 6] [1, 2] = Inl OutOfFuel"
proof (cases fuel)
  case 0
  then show ?thesis by (simp add: ctor_start)
next
  case (Suc f)
  show ?thesis
  proof (cases f)
    case 0
    with Suc show ?thesis
      by (simp add: ctor_start root_not_point upt4 root_quads bnd_def del: upt_Suc)
  next
    case (Suc f')
    with \<open>fuel = Suc f\<close> show ?thesis
      by (simp add: ctor_start root_not_point upt4 root_quads bnd_def child0_point
          child0_linear dims_def set_tree_def Child_def BuildTreeR_empty_diverges
          del: upt_Suc)
  qed
qed

section \<open>The round trip through the constructor\<close>

lemma ctor23:
  "SegmentTree fuel 2 [10, 11, 12, 13, 14, 15] [2, 3] =
     BuildTreeR fuel 2 [10, 11, 12, 13, 14, 15] \<lparr>l = [0, 0], r = [2, 3]\<rparr> 0 s23"
proof -
  have "Volume 2 \<lparr>l = [0, 0], r = [2, 3]\<rparr> = 6" by code_simp
  moreover have "replicate 2 (0::int) = [0, 0]" by code_simp
  ultimately show ?thesis
    by (simp add: SegmentTree_def BuildTree_def dims_def Let_def s23_def)
qed

text \<open>
  With the extents \<open>[2, 3]\<close> the build writes the leaf \<open>(1, 2)\<close> and then descends into the
  empty cube \<open>[1,1) \<times> [2,3)\<close>.
\<close>

lemma build23:
  "BuildTreeR fuel 2 [10, 11, 12, 13, 14, 15] \<lparr>l = [0, 0], r = [2, 3]\<rparr> 0 s23 = Inl OutOfFuel"
proof -
  have e: "BuildTreeR k 2 [10, 11, 12, 13, 14, 15] \<lparr>l = [1, 2], r = [1, 3]\<rparr> v s = Inl OutOfFuel"
    for k v s
    by (rule BuildTreeR_self_quadrant; code_simp)
  have np0: "IsPoint 2 \<lparr>l = [0, 0], r = [2, 3]\<rparr> = False" by code_simp
  have q0: "Subdivide 2 \<lparr>l = [0, 0], r = [2, 3]\<rparr> ! 0 = \<lparr>l = [1, 1], r = [2, 3]\<rparr>" by code_simp
  have np1: "IsPoint 2 \<lparr>l = [1, 1], r = [2, 3]\<rparr> = False" by code_simp
  have q1: "Subdivide 2 \<lparr>l = [1, 1], r = [2, 3]\<rparr> =
     [\<lparr>l = [1, 2], r = [2, 3]\<rparr>, \<lparr>l = [1, 2], r = [1, 3]\<rparr>,
      \<lparr>l = [1, 1], r = [2, 2]\<rparr>, \<lparr>l = [1, 1], r = [1, 2]\<rparr>]" by code_simp
  have p: "IsPoint 2 \<lparr>l = [1, 2], r = [2, 3]\<rparr> = True" by code_simp
  have lin: "Linear 2 [2, 3] [1, 2] = 4" by code_simp
  have c1: "BuildTreeR k 2 [10, 11, 12, 13, 14, 15] \<lparr>l = [1, 1], r = [2, 3]\<rparr> (Suc 0) s23
              = Inl OutOfFuel" for k
  proof (cases k)
    case 0 then show ?thesis by simp
  next
    case (Suc k1)
    show ?thesis
    proof (cases k1)
      case 0
      with Suc show ?thesis by (simp add: np1 q1 upt4 bnd_def del: upt_Suc)
    next
      case (Suc k2)
      with \<open>k = Suc k1\<close> show ?thesis
        by (simp add: np1 q1 upt4 bnd_def p lin dims_def s23_def set_tree_def Child_def e
            del: upt_Suc)
    qed
  qed
  have u: "[0..<4] = 0 # [1..<4::nat]" by (simp add: upt_conv_Cons)
  show ?thesis
  proof (cases fuel)
    case 0 then show ?thesis by simp
  next
    case (Suc k)
    have "Child 2 0 0 = Suc 0" by (simp add: Child_def)
    with Suc show ?thesis
      by (simp add: np0 q0 u c1 bnd_def del: upt_Suc)
  qed
qed

text \<open>
  Claim C3 (after every valid construction \<open>get(c)\<close> returns the entry of the array at the
  row-major index of \<open>c\<close>, and distinct cells read distinct entries). The code at
  \<open>n = 2\<close>, \<open>dims = [2, 3]\<close>, \<open>arr = [10, .., 15]\<close>: \<^verbatim>\<open>Linear\<close> sends the distinct cells
  \<open>(0, 2)\<close> and \<open>(1, 0)\<close>, of row-major indices 2 and 3, both to the entry 2, and the
  constructor does not return for any fuel, so that no \<open>get\<close> can follow it.
\<close>

theorem roundtrip_2x3_fails:
  "Linear 2 [2, 3] [0, 2] = 2 \<and> Linear 2 [2, 3] [1, 0] = 2 \<and>
   SegmentTree fuel 2 [10, 11, 12, 13, 14, 15] [2, 3] = Inl OutOfFuel"
proof -
  have "Linear 2 [2, 3] [0, 2] = 2" by code_simp
  moreover have "Linear 2 [2, 3] [1, 0] = 2" by code_simp
  ultimately show ?thesis by (simp add: ctor23 build23)
qed

section \<open>Sums after lazy updates\<close>

text \<open>
  Claim C1 (a query returns the sum of the current cell values of its domain). The code at
  \<open>n = 1\<close>, \<open>dims = [4]\<close>, all cells 0: after \<open>add_range([0,4), 1)\<close> every cell is 1 and
  the sum over \<open>[0,2)\<close> is 2, but \<open>query_range([0,2))\<close> returns 0: \<^verbatim>\<open>Push\<close> hands the
  pending addition of the root to the child without updating the value of the child.
\<close>

theorem query_after_add_is_stale:
  "bnd (SegmentTree 3 1 [0, 0, 0, 0] [4]) (\<lambda>s.
   bnd (AddToRange 3 1 \<lparr>l = [0], r = [4]\<rparr> 1 s) (\<lambda>s.
   bnd (QueryRange 3 1 \<lparr>l = [0], r = [2]\<rparr> s) (\<lambda>(x, s). Inr x))) = Inr 0"
  by code_simp

text \<open>
  Claim C2 (after every public operation the value stored at a node is the true sum over
  its domain). The code at \<open>n = 1\<close>, \<open>dims = [2]\<close>, all cells 0: after
  \<open>add_range([0,2), 1)\<close> and \<open>query_range([0,1))\<close> (which returns 1) both leaves hold 1,
  nothing is pending at the root, and the root holds 4 instead of 2: \<^verbatim>\<open>Push\<close> applies to
  the value of the root the addition that \<^verbatim>\<open>EvaluateAny\<close> had already applied.
\<close>

theorem root_value_after_push_is_doubled:
  "bnd (SegmentTree 2 1 [0, 0] [2]) (\<lambda>s.
   bnd (AddToRange 2 1 \<lparr>l = [0], r = [2]\<rparr> 1 s) (\<lambda>s.
   bnd (QueryRange 2 1 \<lparr>l = [0], r = [1]\<rparr> s) (\<lambda>(x, s).
   Inr (x, tree s ! 0, tree s ! Child 1 0 0, tree s ! Child 1 0 1, operations s ! 0)))) =
   Inr (1, 4, 1, 1, \<lparr>reset_pending = False, to_add = 0\<rparr>)"
  by code_simp

text \<open>
  Claim C6 (\<open>add_range(D, k)\<close> raises the result of \<open>query_range(D)\<close> by \<open>k * volume(D)\<close>).
  The code at \<open>n = 1\<close>, \<open>dims = [2]\<close>, all cells 0, in the state reached by
  \<open>add_range([0,2), 1)\<close>: the query of \<open>D = [0,2)\<close> returns 2 before and 6 after a second
  \<open>add_range(D, 1)\<close>, a difference of 4 where \<open>k * volume(D) = 2\<close>: \<^verbatim>\<open>EvaluateAny\<close>
  evaluates the composed pending operation, which contains the earlier addition again.
\<close>

theorem add_twice_counts_first_add_again:
  "bnd (SegmentTree 2 1 [0, 0] [2]) (\<lambda>s.
   bnd (AddToRange 2 1 \<lparr>l = [0], r = [2]\<rparr> 1 s) (\<lambda>s.
   bnd (QueryRange 2 1 \<lparr>l = [0], r = [2]\<rparr> s) (\<lambda>(before, s).
   bnd (AddToRange 2 1 \<lparr>l = [0], r = [2]\<rparr> 1 s) (\<lambda>s.
   bnd (QueryRange 2 1 \<lparr>l = [0], r = [2]\<rparr> s) (\<lambda>(after, s).
   Inr (before, after, 1 * Volume 1 \<lparr>l = [0], r = [2]\<rparr>)))))) = Inr (2, 6, 2)"
  by code_simp

section \<open>The size of the vectors\<close>

text \<open>
  Claim C5 (every index that an operation on a domain inside the entire domain reaches is
  below \<open>4 * volume\<close>). The code at \<open>n = 2\<close>, \<open>dims = [1, 1]\<close>, \<open>arr = [5]\<close>: the vectors
  have 4 entries, and the query of the empty domain \<open>[0,0) \<times> [0,0)\<close>, which lies inside
  \<open>[0,1) \<times> [0,1)\<close>, pushes at the root and reaches the index \<open>Child 2 0 3 = 4\<close>.
\<close>

theorem push_at_point_root_out_of_bounds:
  "bnd (SegmentTree 1 2 [5] [1, 1]) (\<lambda>s. Inr (length (tree s), length (operations s))) =
     Inr (4, 4) \<and>
   Child 2 0 3 = 4 \<and>
   bnd (SegmentTree 1 2 [5] [1, 1]) (QueryRange 1 2 \<lparr>l = [0, 0], r = [0, 0]\<rparr>) =
     Inl OutOfBounds"
  by code_simp

section \<open>Outcomes of the primitive steps\<close>

lemma bnd_Inr: "bnd x f = Inr y \<longleftrightarrow> (\<exists>a. x = Inr a \<and> f a = Inr y)"
  by (cases x) (simp_all add: bnd_def)

lemma foldM_Cons_Inr:
  "foldM f (x # xs) s = Inr s' \<longleftrightarrow> (\<exists>s1. f x s = Inr s1 \<and> foldM f xs s1 = Inr s')"
  by (simp split: sum.splits)

lemma set_tree_Inr:
  "set_tree v x s = Inr s' \<longleftrightarrow> v < length (tree s) \<and> s' = s\<lparr>tree := (tree s)[v := x]\<rparr>"
  by (auto simp: set_tree_def)

lemma set_operation_Inr:
  "set_operation v x s = Inr s' \<longleftrightarrow>
     v < length (operations s) \<and> s' = s\<lparr>operations := (operations s)[v := x]\<rparr>"
  by (auto simp: set_operation_def)

lemma UpdateValueFromAbove_Inr:
  "UpdateValueFromAbove n v d s = Inr s' \<longleftrightarrow>
     v < length (operations s) \<and> v < length (tree s) \<and>
     s' = s\<lparr>tree := (tree s)[v := Evaluate n (operations s ! v) (tree s ! v) d]\<rparr>"
  by (auto simp: UpdateValueFromAbove_def set_tree_Inr)

lemmas prim_Inr = bnd_Inr set_tree_Inr set_operation_Inr UpdateValueFromAbove_Inr

section \<open>Node indices and subtrees\<close>

lemma Child_gt: "v < Child n v i"
proof -
  have "v \<le> 2 ^ n * v" by simp
  then show ?thesis unfolding Child_def by linarith
qed

lemma Child_inj_index: "Child n v i = Child n v j \<Longrightarrow> i = j"
  by (simp add: Child_def)

lemma Child_inj:
  assumes "Child n u i = Child n u' i'" and "i < 2 ^ n" and "i' < 2 ^ n"
  shows "u = u' \<and> i = i'"
proof -
  from assms(1) have e: "i + u * 2 ^ n = i' + u' * 2 ^ n"
    by (simp add: Child_def mult.commute)
  then have "(i + u * 2 ^ n) div 2 ^ n = (i' + u' * 2 ^ n) div 2 ^ n" by simp
  with assms(2,3) have "u = u'" by simp
  with e show ?thesis by simp
qed

lemma subtree_ge: "u \<in> subtree n v \<Longrightarrow> v \<le> u"
proof (induction rule: subtree.induct)
  case root
  show ?case by simp
next
  case (child u i)
  with Child_gt [of u n i] show ?case by simp
qed

lemma self_notin_child: "v \<notin> subtree n (Child n v i)"
  using subtree_ge [of v n "Child n v i"] Child_gt [of v n i] by auto

lemma subtree_child_sub:
  assumes "i < 2 ^ n" and "u \<in> subtree n (Child n v i)"
  shows "u \<in> subtree n v"
  using assms(2)
proof (induction rule: subtree.induct)
  case root
  from assms(1) show ?case by (intro subtree.child subtree.root)
next
  case (child u k)
  then show ?case by (intro subtree.child)
qed

lemma subtree_disjoint:
  assumes i: "i < 2 ^ n" and j: "j < 2 ^ n" and ne: "i \<noteq> j"
    and u: "u \<in> subtree n (Child n v i)"
  shows "u \<notin> subtree n (Child n v j)"
  using u
proof (induction rule: subtree.induct)
  case root
  show ?case
  proof
    assume "Child n v i \<in> subtree n (Child n v j)"
    then show False
    proof (cases rule: subtree.cases)
      case root
      with ne show False by (auto dest: Child_inj_index)
    next
      case (child w k)
      with i have "v = w" by (auto dest: Child_inj)
      with child(2) self_notin_child [of v n j] show False by simp
    qed
  qed
next
  case (child w k)
  note w = \<open>w \<in> subtree n (Child n v i)\<close> and k = \<open>k < 2 ^ n\<close>
    and IH = \<open>w \<notin> subtree n (Child n v j)\<close>
  show ?case
  proof
    assume "Child n w k \<in> subtree n (Child n v j)"
    then show False
    proof (cases rule: subtree.cases)
      case root
      with k j have "w = v" by (auto dest: Child_inj)
      with w self_notin_child [of v n i] show False by simp
    next
      case (child w' k')
      with k have "w = w'" by (auto dest: Child_inj)
      with child(2) IH show False by simp
    qed
  qed
qed

section \<open>What \<^verbatim>\<open>Push\<close> changes\<close>

lemma Push_child_props:
  assumes "Push_child n v quads i s = Inr s'"
  shows "length (tree s') = length (tree s)"
    and "length (operations s') = length (operations s)"
    and "Child n v i < length (operations s)"
    and "IsPoint n (quads ! i) \<Longrightarrow> Child n v i < length (tree s)"
    and "entire_domain s' = entire_domain s"
    and "IsPoint n (quads ! i) \<Longrightarrow>
           operations s' ! Child n v i = \<lparr>reset_pending = False, to_add = 0\<rparr>"
    and "u \<noteq> Child n v i \<Longrightarrow> tree s' ! u = tree s ! u"
    and "u \<noteq> Child n v i \<Longrightarrow> operations s' ! u = operations s ! u"
  using assms
  by (auto simp: Push_child_def Let_def prim_Inr Reset_def split: if_splits)

lemma Push_loop_props:
  assumes "foldM (Push_child n v quads) js s = Inr s'"
  shows "length (tree s') = length (tree s) \<and> length (operations s') = length (operations s) \<and>
    entire_domain s' = entire_domain s \<and>
    (\<forall>i\<in>set js. Child n v i < length (operations s)) \<and>
    (\<forall>u. u \<notin> Child n v ` set js \<longrightarrow>
       tree s' ! u = tree s ! u \<and> operations s' ! u = operations s ! u) \<and>
    (distinct js \<longrightarrow> (\<forall>i\<in>set js. IsPoint n (quads ! i) \<longrightarrow>
       Child n v i < length (tree s) \<and>
       operations s' ! Child n v i = \<lparr>reset_pending = False, to_add = 0\<rparr>))"
  using assms
proof (induction js arbitrary: s)
  case Nil
  then show ?case by simp
next
  case (Cons j js)
  from Cons.prems obtain s1 where
    j: "Push_child n v quads j s = Inr s1" and rest: "foldM (Push_child n v quads) js s1 = Inr s'"
    by (auto split: sum.splits)
  note IH = Cons.IH [OF rest]
  note P = Push_child_props [OF j]
  have "distinct (j # js) \<Longrightarrow> IsPoint n (quads ! j) \<Longrightarrow>
      operations s' ! Child n v j = \<lparr>reset_pending = False, to_add = 0\<rparr>"
  proof -
    assume "distinct (j # js)" and pt: "IsPoint n (quads ! j)"
    then have "Child n v j \<notin> Child n v ` set js"
      by (auto dest: Child_inj_index)
    with IH have "operations s' ! Child n v j = operations s1 ! Child n v j" by blast
    with P(6) [OF pt] show ?thesis by simp
  qed
  moreover have "\<forall>u. u \<notin> Child n v ` set (j # js) \<longrightarrow>
       tree s' ! u = tree s ! u \<and> operations s' ! u = operations s ! u"
    using IH P(7,8) by auto
  moreover have "distinct (j # js) \<longrightarrow> (\<forall>i\<in>set js. IsPoint n (quads ! i) \<longrightarrow>
       Child n v i < length (tree s) \<and>
       operations s' ! Child n v i = \<lparr>reset_pending = False, to_add = 0\<rparr>)"
    using IH P(1) by auto
  ultimately show ?case
    using IH P(1,2,3,4,5) by auto
qed

lemma Push_props:
  assumes "Push n v d quads s = Inr s'"
  shows "length (tree s') = length (tree s)"
    and "length (operations s') = length (operations s)"
    and "v < length (tree s)" and "v < length (operations s)"
    and "operations s' ! v = \<lparr>reset_pending = False, to_add = 0\<rparr>"
    and "i < 2 ^ n \<Longrightarrow> Child n v i < length (operations s)"
    and "i < 2 ^ n \<Longrightarrow> IsPoint n (quads ! i) \<Longrightarrow> Child n v i < length (tree s)"
    and "i < 2 ^ n \<Longrightarrow> IsPoint n (quads ! i) \<Longrightarrow>
           operations s' ! Child n v i = \<lparr>reset_pending = False, to_add = 0\<rparr>"
    and "u \<notin> subtree n v \<Longrightarrow> tree s' ! u = tree s ! u \<and> operations s' ! u = operations s ! u"
    and "entire_domain s' = entire_domain s"
proof -
  from assms obtain s1 where
    loop: "foldM (Push_child n v quads) [0..<2 ^ n] s = Inr s1"
    and v: "v < length (operations s1)" "v < length (tree s1)"
    and s': "s' = s1\<lparr>tree := (tree s1)[v := Evaluate n (operations s1 ! v) (tree s1 ! v) d],
                    operations := (operations s1)[v := \<lparr>reset_pending = False, to_add = 0\<rparr>]\<rparr>"
    by (auto simp: Push_def prim_Inr Reset_def split: if_splits)
  note L = Push_loop_props [OF loop]
  from L s' show "length (tree s') = length (tree s)"
    and "length (operations s') = length (operations s)" by simp_all
  from L v show "v < length (tree s)" and "v < length (operations s)" by simp_all
  from v s' show "operations s' ! v = \<lparr>reset_pending = False, to_add = 0\<rparr>" by simp
  from L show "i < 2 ^ n \<Longrightarrow> Child n v i < length (operations s)" by simp
  from L show "i < 2 ^ n \<Longrightarrow> IsPoint n (quads ! i) \<Longrightarrow> Child n v i < length (tree s)"
    by simp
  show "operations s' ! Child n v i = \<lparr>reset_pending = False, to_add = 0\<rparr>"
    if "i < 2 ^ n" "IsPoint n (quads ! i)"
  proof -
    from L that have "operations s1 ! Child n v i = \<lparr>reset_pending = False, to_add = 0\<rparr>"
      by simp
    moreover have "Child n v i \<noteq> v" using Child_gt [of v n i] by simp
    ultimately show ?thesis using s' by simp
  qed
  show "tree s' ! u = tree s ! u \<and> operations s' ! u = operations s ! u" if "u \<notin> subtree n v"
  proof -
    from that have "u \<noteq> v" using subtree.root [of v n] by auto
    moreover from that have "u \<notin> Child n v ` set [0..<2 ^ n]"
      using subtree.child [OF subtree.root, of _ n v] by auto
    ultimately show ?thesis using L s' by simp
  qed
  from L s' show "entire_domain s' = entire_domain s" by simp
qed

lemma ComposeWith_identity: "ComposeWith x \<lparr>reset_pending = False, to_add = 0\<rparr> = x"
  by (simp add: ComposeWith_def)

lemma Evaluate_identity: "Evaluate n \<lparr>reset_pending = False, to_add = 0\<rparr> val d = val"
  by (simp add: Evaluate_def)

lemma list_update_same: "xs ! i = x \<Longrightarrow> xs[i := x] = xs"
  by auto

lemma Push_child_noop:
  assumes "operations t ! v = \<lparr>reset_pending = False, to_add = 0\<rparr>"
    and "v < length (operations t)" and "Child n v i < length (operations t)"
    and "IsPoint n (quads ! i) \<Longrightarrow> Child n v i < length (tree t) \<and>
           operations t ! Child n v i = \<lparr>reset_pending = False, to_add = 0\<rparr>"
  shows "Push_child n v quads i t = Inr t"
  using assms
  by (auto simp: Push_child_def Let_def prim_Inr ComposeWith_identity Evaluate_identity Reset_def
      list_update_same)

lemma Push_noop:
  assumes "operations t ! v = \<lparr>reset_pending = False, to_add = 0\<rparr>"
    and "v < length (operations t)" and "v < length (tree t)"
    and "\<And>i. i < 2 ^ n \<Longrightarrow> Child n v i < length (operations t)"
    and "\<And>i. i < 2 ^ n \<Longrightarrow> IsPoint n (quads ! i) \<Longrightarrow> Child n v i < length (tree t) \<and>
           operations t ! Child n v i = \<lparr>reset_pending = False, to_add = 0\<rparr>"
  shows "Push n v d quads t = Inr t"
proof -
  have "foldM (Push_child n v quads) js t = Inr t" if "set js \<subseteq> {..<2 ^ n}" for js
    using that
  proof (induction js)
    case Nil
    show ?case by simp
  next
    case (Cons j js)
    then have "Push_child n v quads j t = Inr t"
      using assms by (intro Push_child_noop) auto
    with Cons show ?case by simp
  qed
  moreover have "set [0..<2 ^ n] \<subseteq> {..<2 ^ n :: nat}" by auto
  ultimately have "foldM (Push_child n v quads) [0..<2 ^ n] t = Inr t" by blast
  with assms(1,2,3) show ?thesis
    by (simp add: Push_def prim_Inr Evaluate_identity Reset_def list_update_same)
qed

section \<open>What \<^verbatim>\<open>QueryRangeR\<close> changes\<close>

lemma agree_on_refl: "agree_on A s s"
  by (simp add: agree_on_def)

lemma agree_on_sym: "agree_on A s t \<Longrightarrow> agree_on A t s"
  by (simp add: agree_on_def)

lemma agree_on_trans: "agree_on A s t \<Longrightarrow> agree_on B t u \<Longrightarrow> agree_on (A \<inter> B) s u"
  by (simp add: agree_on_def)

lemma agree_on_mono: "agree_on A s t \<Longrightarrow> B \<subseteq> A \<Longrightarrow> agree_on B s t"
  by (auto simp: agree_on_def)

lemma QueryRangeR_Suc:
  "QueryRangeR (Suc f) n v q d s =
     (if cube_eq n q d
      then (if v < length (tree s) then Inr (tree s ! v, s) else Inl OutOfBounds)
      else bnd (Push n v d (Subdivide n d) s)
             (\<lambda>s1. foldM (Query_child f n v q (Subdivide n d)) [0..<2 ^ n] (0, s1)))"
proof -
  have "Query_child f n v q (Subdivide n d) = (\<lambda>i (sum, st).
                 let quad = Subdivide n d ! i; query_sub = IntersectWith n quad q in
                 if \<not> IsEmpty n query_sub
                 then bnd (QueryRangeR f n (Child n v i) query_sub quad st)
                        (\<lambda>(x, st'). Inr (sum + x, st'))
                 else Inr (sum, st))"
    by (intro ext) (simp add: Query_child_def)
  then show ?thesis by (simp add: Let_def)
qed

declare QueryRangeR.simps(2) [simp del]

lemma Query_child_Inr:
  "Query_child f n v q quads i (a, st) = Inr (b, st') \<longleftrightarrow>
     (if IsEmpty n (IntersectWith n (quads ! i) q) then b = a \<and> st' = st
      else \<exists>x. QueryRangeR f n (Child n v i) (IntersectWith n (quads ! i) q) (quads ! i) st
                  = Inr (x, st') \<and> b = a + x)"
  by (auto simp: Query_child_def Let_def bnd_Inr)

lemma Query_loop_frame_aux:
  assumes IH: "\<And>v q d s x s'. QueryRangeR f n v q d s = Inr (x, s') \<Longrightarrow>
                 agree_on (- subtree n v) s s'"
    and "foldM (Query_child f n v q quads) js (a, st) = Inr (b, st')"
  shows "agree_on (- (\<Union>j\<in>set js. subtree n (Child n v j))) st st'"
  using assms(2)
proof (induction js arbitrary: a st)
  case Nil
  then show ?case by (simp add: agree_on_refl)
next
  case (Cons j js)
  from Cons.prems obtain a1 st1 where
    j: "Query_child f n v q quads j (a, st) = Inr (a1, st1)"
    and rest: "foldM (Query_child f n v q quads) js (a1, st1) = Inr (b, st')"
    by (auto split: sum.splits)
  have "agree_on (- subtree n (Child n v j)) st st1"
    using j IH by (auto simp: Query_child_Inr agree_on_refl split: if_splits)
  from agree_on_trans [OF this Cons.IH [OF rest]] show ?case
    by (rule agree_on_mono) auto
qed

lemma QueryRangeR_frame:
  "QueryRangeR f n v q d s = Inr (x, s') \<Longrightarrow> agree_on (- subtree n v) s s'"
proof (induction f arbitrary: v q d s x s')
  case 0
  then show ?case by simp
next
  case (Suc f)
  show ?case
  proof (cases "cube_eq n q d")
    case True
    with Suc.prems show ?thesis
      by (auto simp: QueryRangeR_Suc agree_on_refl split: if_splits)
  next
    case False
    with Suc.prems obtain s0 where
      push: "Push n v d (Subdivide n d) s = Inr s0"
      and loop: "foldM (Query_child f n v q (Subdivide n d)) [0..<2 ^ n] (0, s0) = Inr (x, s')"
      by (auto simp: QueryRangeR_Suc bnd_Inr)
    from Push_props(1,2,9,10) [OF push] have "agree_on (- subtree n v) s s0"
      by (simp add: agree_on_def)
    from agree_on_trans [OF this Query_loop_frame_aux [OF Suc.IH loop]]
    show ?thesis
      by (rule agree_on_mono) (auto dest: subtree_child_sub)
  qed
qed

lemma Query_loop_frame:
  "foldM (Query_child f n v q quads) js (a, st) = Inr (b, st') \<Longrightarrow>
     agree_on (- (\<Union>j\<in>set js. subtree n (Child n v j))) st st'"
  by (rule Query_loop_frame_aux [OF QueryRangeR_frame])

lemma QueryRangeR_keeps_identity:
  assumes "QueryRangeR f n v q d s = Inr (x, s')"
    and "operations s ! v = \<lparr>reset_pending = False, to_add = 0\<rparr>"
  shows "operations s' ! v = \<lparr>reset_pending = False, to_add = 0\<rparr>"
proof (cases f)
  case 0
  with assms show ?thesis by simp
next
  case (Suc f')
  show ?thesis
  proof (cases "cube_eq n q d")
    case True
    with assms Suc show ?thesis
      by (auto simp: QueryRangeR_Suc split: if_splits)
  next
    case False
    with assms Suc obtain s0 where
      push: "Push n v d (Subdivide n d) s = Inr s0"
      and loop: "foldM (Query_child f' n v q (Subdivide n d)) [0..<2 ^ n] (0, s0) = Inr (x, s')"
      by (auto simp: QueryRangeR_Suc bnd_Inr)
    have "v \<in> - (\<Union>j\<in>set [0..<2 ^ n]. subtree n (Child n v j))"
      using self_notin_child [of v n] by simp
    with Query_loop_frame [OF loop] have "operations s' ! v = operations s0 ! v"
      by (simp add: agree_on_def)
    with Push_props(5) [OF push] show ?thesis by simp
  qed
qed

lemma Query_loop_keeps_identity:
  assumes "foldM (Query_child f n v q quads) js (a, st) = Inr (b, st')"
    and "set js \<subseteq> {..<2 ^ n}" and "k < 2 ^ n"
    and "operations st ! Child n v k = \<lparr>reset_pending = False, to_add = 0\<rparr>"
  shows "operations st' ! Child n v k = \<lparr>reset_pending = False, to_add = 0\<rparr>"
  using assms(1,2,4)
proof (induction js arbitrary: a st)
  case Nil
  then show ?case by simp
next
  case (Cons j js)
  from Cons.prems(1) obtain a1 st1 where
    j: "Query_child f n v q quads j (a, st) = Inr (a1, st1)"
    and rest: "foldM (Query_child f n v q quads) js (a1, st1) = Inr (b, st')"
    by (auto split: sum.splits)
  have "operations st1 ! Child n v k = \<lparr>reset_pending = False, to_add = 0\<rparr>"
  proof (cases "IsEmpty n (IntersectWith n (quads ! j) q)")
    case True
    with j Cons.prems(3) show ?thesis by (simp add: Query_child_Inr)
  next
    case False
    with j obtain x where
      call: "QueryRangeR f n (Child n v j) (IntersectWith n (quads ! j) q) (quads ! j) st
               = Inr (x, st1)"
      by (auto simp: Query_child_Inr)
    show ?thesis
    proof (cases "j = k")
      case True
      with QueryRangeR_keeps_identity [OF call] Cons.prems(3) show ?thesis by simp
    next
      case False
      with Cons.prems(2) \<open>k < 2 ^ n\<close> have "Child n v k \<notin> subtree n (Child n v j)"
        using subtree_disjoint [of k n j "Child n v k" v] subtree.root [of "Child n v k" n]
        by auto
      with QueryRangeR_frame [OF call] Cons.prems(3) show ?thesis
        by (simp add: agree_on_def)
    qed
  qed
  with Cons.IH [OF rest] Cons.prems(2) show ?case by simp
qed

lemma Query_loop_again:
  assumes IH: "\<And>v q d s x s1 t. QueryRangeR f n v q d s = Inr (x, s1) \<Longrightarrow>
                 agree_on (subtree n v) s1 t \<Longrightarrow> QueryRangeR f n v q d t = Inr (x, t)"
    and "foldM (Query_child f n v q quads) js (a, st) = Inr (b, st')"
    and "distinct js" and "set js \<subseteq> {..<2 ^ n}"
    and "agree_on (\<Union>j\<in>set js. subtree n (Child n v j)) st' t"
  shows "foldM (Query_child f n v q quads) js (a, t) = Inr (b, t)"
  using assms(2-)
proof (induction js arbitrary: a st)
  case Nil
  then show ?case by simp
next
  case (Cons j js)
  from Cons.prems(1) obtain a1 st1 where
    j: "Query_child f n v q quads j (a, st) = Inr (a1, st1)"
    and rest: "foldM (Query_child f n v q quads) js (a1, st1) = Inr (b, st')"
    by (auto split: sum.splits)
  from Cons.prems(4) have t_rest: "agree_on (\<Union>j\<in>set js. subtree n (Child n v j)) st' t"
    by (rule agree_on_mono) auto
  from Cons.prems(2,3) have tail: "foldM (Query_child f n v q quads) js (a1, t) = Inr (b, t)"
    by (intro Cons.IH [OF rest _ _ t_rest]) auto
  have "Query_child f n v q quads j (a, t) = Inr (a1, t)"
  proof (cases "IsEmpty n (IntersectWith n (quads ! j) q)")
    case True
    with j show ?thesis by (simp add: Query_child_Inr)
  next
    case False
    with j obtain x where
      call: "QueryRangeR f n (Child n v j) (IntersectWith n (quads ! j) q) (quads ! j) st
               = Inr (x, st1)"
      and a1: "a1 = a + x"
      by (auto simp: Query_child_Inr)
    have "subtree n (Child n v j) \<subseteq> - (\<Union>i\<in>set js. subtree n (Child n v i))"
      using Cons.prems(2,3) subtree_disjoint [of j n _ _ v] by auto
    with Query_loop_frame [OF rest] have "agree_on (subtree n (Child n v j)) st1 st'"
      by (rule agree_on_mono)
    moreover from Cons.prems(4) have "agree_on (subtree n (Child n v j)) st' t"
      by (rule agree_on_mono) auto
    ultimately have "agree_on (subtree n (Child n v j)) st1 t"
      using agree_on_trans by fastforce
    from IH [OF call this] False a1 show ?thesis
      by (simp add: Query_child_Inr)
  qed
  with tail show ?case by simp
qed

lemma QueryRangeR_again:
  "QueryRangeR f n v q d s = Inr (x, s1) \<Longrightarrow> agree_on (subtree n v) s1 t \<Longrightarrow>
     QueryRangeR f n v q d t = Inr (x, t)"
proof (induction f arbitrary: v q d s x s1 t)
  case 0
  then show ?case by simp
next
  case (Suc f)
  show ?case
  proof (cases "cube_eq n q d")
    case True
    with Suc.prems subtree.root [of v n] show ?thesis
      by (auto simp: QueryRangeR_Suc agree_on_def split: if_splits)
  next
    case False
    let ?quads = "Subdivide n d"
    from False Suc.prems(1) obtain s0 where
      push: "Push n v d ?quads s = Inr s0"
      and loop: "foldM (Query_child f n v q ?quads) [0..<2 ^ n] (0, s0) = Inr (x, s1)"
      by (auto simp: QueryRangeR_Suc bnd_Inr)
    note P = Push_props [OF push]
    note F = Query_loop_frame [OF loop]
    from F have len: "length (tree s1) = length (tree s0)"
      "length (operations s1) = length (operations s0)"
      by (simp_all add: agree_on_def)
    from Suc.prems(2) have lent: "length (tree t) = length (tree s1)"
      "length (operations t) = length (operations s1)"
      by (simp_all add: agree_on_def)
    have "v \<in> - (\<Union>j\<in>set [0..<2 ^ n]. subtree n (Child n v j))"
      using self_notin_child [of v n] by simp
    with F have "operations s1 ! v = operations s0 ! v"
      by (simp add: agree_on_def)
    with P(5) Suc.prems(2) subtree.root [of v n]
    have tv: "operations t ! v = \<lparr>reset_pending = False, to_add = 0\<rparr>"
      by (simp add: agree_on_def)
    have tc: "Child n v i < length (tree t) \<and>
        operations t ! Child n v i = \<lparr>reset_pending = False, to_add = 0\<rparr>"
      if i: "i < 2 ^ n" and pt: "IsPoint n (?quads ! i)" for i
    proof -
      have "set [0..<2 ^ n] \<subseteq> {..<2 ^ n :: nat}" by auto
      from Query_loop_keeps_identity [OF loop this i P(8) [OF i pt]]
      have "operations s1 ! Child n v i = \<lparr>reset_pending = False, to_add = 0\<rparr>" by simp
      moreover have "Child n v i \<in> subtree n v"
        using i by (intro subtree.child subtree.root)
      ultimately show ?thesis
        using Suc.prems(2) P(7) [OF i pt] P(1) len lent by (simp add: agree_on_def)
    qed
    have "Push n v d ?quads t = Inr t"
      using tv tc P(1,2,3,4,6) len lent by (intro Push_noop) simp_all
    moreover have "foldM (Query_child f n v q ?quads) [0..<2 ^ n] (0, t) = Inr (x, t)"
    proof (rule Query_loop_again [OF Suc.IH loop])
      show "distinct [0..<2 ^ n]" by simp
      show "set [0..<2 ^ n] \<subseteq> {..<2 ^ n :: nat}" by auto
      from Suc.prems(2) show "agree_on (\<Union>j\<in>set [0..<2 ^ n]. subtree n (Child n v j)) s1 t"
        by (rule agree_on_mono) (auto dest: subtree_child_sub)
    qed
    ultimately show ?thesis
      using False by (simp add: QueryRangeR_Suc bnd_def)
  qed
qed

section \<open>The query of the entire domain\<close>

lemma UpdateValueFromBelow_Inr:
  "UpdateValueFromBelow n v s = Inr s' \<Longrightarrow> v < length (tree s) \<and> length (tree s') = length (tree s)"
  by (auto simp: UpdateValueFromBelow_def prim_Inr)

lemma BuildTreeR_root_in_bounds:
  "BuildTreeR f n arr d v s = Inr s' \<Longrightarrow> v < length (tree s')"
  by (cases f) (auto simp: prim_Inr Let_def dest!: UpdateValueFromBelow_Inr split: if_splits)

lemma ApplyOperationR_root_in_bounds:
  "ApplyOperationR f n v q d op s = Inr s' \<Longrightarrow> v < length (tree s')"
  by (cases f)
     (auto simp: prim_Inr Let_def EvaluateAny_def dest!: UpdateValueFromBelow_Inr split: if_splits)

lemma QueryRangeR_root_in_bounds:
  assumes "QueryRangeR f n v q d s = Inr (x, s')"
  shows "v < length (tree s')"
proof -
  from assms have "f \<noteq> 0" by (cases f) auto
  then obtain f' where f: "f = Suc f'" by (cases f) auto
  from QueryRangeR_frame [OF assms] have len: "length (tree s') = length (tree s)"
    by (simp add: agree_on_def)
  show ?thesis
  proof (cases "cube_eq n q d")
    case True
    with assms f show ?thesis by (auto simp: QueryRangeR_Suc split: if_splits)
  next
    case False
    with assms f obtain s0 where "Push n v d (Subdivide n d) s = Inr s0"
      by (auto simp: QueryRangeR_Suc bnd_Inr)
    from Push_props(3) [OF this] len show ?thesis by simp
  qed
qed

lemma reachable_root_in_bounds: "reachable n s \<Longrightarrow> 0 < length (tree s)"
proof (induction rule: reachable.induct)
  case (built fuel arr ds s)
  then show ?case
    by (auto simp: SegmentTree_def BuildTree_def Let_def split: if_splits
        dest: BuildTreeR_root_in_bounds)
next
  case (applied s fuel D op s')
  then show ?case
    by (auto simp: ApplyToRange_def dest: ApplyOperationR_root_in_bounds)
next
  case (queried s fuel D x s')
  then show ?case
    by (auto simp: QueryRange_def dest: QueryRangeR_root_in_bounds)
qed

text \<open>
  Claim C10. In every reachable state, \<open>query_range\<close> of a domain that \<^verbatim>\<open>operator==\<close> finds
  equal to the entire domain returns \<open>tree ! 0\<close> and leaves the whole state, every entry of
  both vectors, as it was.
\<close>

theorem query_entire_domain_pure:
  assumes "reachable n s" and "cube_eq n D (entire_domain s)"
  shows "QueryRange (Suc fuel) n D s = Inr (tree s ! 0, s)"
  using assms reachable_root_in_bounds [OF assms(1)]
  by (simp add: QueryRange_def QueryRangeR_Suc)

theorem query_entire_domain_pure_witness:
  "reachable 1 st_added \<and> cube_eq 1 \<lparr>l = [0], r = [2]\<rparr> (entire_domain st_added) \<and>
   QueryRange (Suc 0) 1 \<lparr>l = [0], r = [2]\<rparr> st_added = Inr (tree st_added ! 0, st_added) \<and>
   tree st_added ! 0 = 9"
proof -
  have "SegmentTree 2 1 [3, 4] [2] = Inr st_built"
    by code_simp
  then have "reachable 1 st_built"
    by (rule reachable.built)
  moreover have "ApplyToRange 2 1 \<lparr>l = [0], r = [2]\<rparr> \<lparr>reset_pending = False, to_add = 1\<rparr> st_built
      = Inr st_added"
    by code_simp
  ultimately have re: "reachable 1 st_added"
    by (rule reachable.applied)
  have eq: "cube_eq 1 \<lparr>l = [0], r = [2]\<rparr> (entire_domain st_added)"
    by code_simp
  have v: "tree st_added ! 0 = 9"
    by code_simp
  show ?thesis
    by (rule conjI [OF re conjI [OF eq conjI [OF query_entire_domain_pure [OF re eq] v]]])
qed

section \<open>Queries of reachable states return\<close>

lemma inside_iff:
  "inside n q d \<longleftrightarrow> (\<forall>k<n. l d ! k \<le> l q ! k \<and> l q ! k < r q ! k \<and> r q ! k \<le> r d ! k)"
  by (auto simp: inside_def list_all_iff)

lemma cube_eq_iff: "cube_eq n q d \<longleftrightarrow> (\<forall>k<n. l q ! k = l d ! k \<and> r q ! k = r d ! k)"
  by (auto simp: cube_eq_def list_all_iff)

lemma prod_pos_eq_1:
  fixes g :: "nat \<Rightarrow> int"
  assumes "\<forall>k<n. 1 \<le> g k" and "(\<Prod>k<n. g k) = 1"
  shows "\<forall>k<n. g k = 1"
  using assms
proof (induction n)
  case 0
  then show ?case by simp
next
  case (Suc n)
  have "1 \<le> (\<Prod>k<n. g k)"
    using Suc.prems(1) by (intro prod_ge_1) simp
  then have p: "0 < (\<Prod>k<n. g k)" by linarith
  from Suc.prems(2) have e: "(\<Prod>k<n. g k) * g n = 1" by simp
  from pos_zmult_eq_1_iff [OF p, of "g n"] e
  have one: "(\<Prod>k<n. g k) = 1" and gn: "g n = 1" by blast+
  from Suc.prems(1) have "\<forall>k<n. 1 \<le> g k" by simp
  from Suc.IH [OF this one] have "\<forall>k<n. g k = 1" .
  with gn show ?case by (simp add: less_Suc_eq)
qed

lemma inside_point_eq:
  assumes "inside n q d" and "IsPoint n d"
  shows "cube_eq n q d"
proof -
  have "\<forall>k<n. 1 \<le> r d ! k - l d ! k"
  proof (intro allI impI)
    fix k assume "k < n"
    with assms(1) have "l d ! k \<le> l q ! k \<and> l q ! k < r q ! k \<and> r q ! k \<le> r d ! k"
      by (simp add: inside_iff)
    then show "1 \<le> r d ! k - l d ! k" by linarith
  qed
  moreover from assms(2) have "(\<Prod>k<n. r d ! k - l d ! k) = 1"
    by (simp add: IsPoint_def Volume_prod)
  ultimately have one: "\<forall>k<n. r d ! k - l d ! k = 1"
    by (rule prod_pos_eq_1)
  show ?thesis
    unfolding cube_eq_iff
  proof (intro allI impI)
    fix k assume k: "k < n"
    with assms(1) have "l d ! k \<le> l q ! k \<and> l q ! k < r q ! k \<and> r q ! k \<le> r d ! k"
      by (simp add: inside_iff)
    moreover from one k have "r d ! k - l d ! k = 1" by simp
    ultimately show "l q ! k = l d ! k \<and> r q ! k = r d ! k" by linarith
  qed
qed

lemma IntersectWith_axis:
  assumes "k < n"
  shows "l (IntersectWith n c q) ! k =
           (if max (l c ! k) (l q ! k) \<ge> min (r c ! k) (r q ! k) then 0
            else max (l c ! k) (l q ! k))"
    and "r (IntersectWith n c q) ! k =
           (if max (l c ! k) (l q ! k) \<ge> min (r c ! k) (r q ! k) then 0
            else min (r c ! k) (r q ! k))"
  using assms by (simp_all add: IntersectWith_def Let_def)

lemma nonempty_intersection_inside:
  assumes "\<not> IsEmpty n (IntersectWith n c q)"
  shows "inside n (IntersectWith n c q) c"
  unfolding inside_iff
proof (intro allI impI)
  fix k assume k: "k < n"
  let ?i = "IntersectWith n c q"
  from assms have "(\<Prod>k<n. r ?i ! k - l ?i ! k) \<noteq> 0"
    by (simp add: IsEmpty_def Volume_prod)
  with k have ne: "r ?i ! k - l ?i ! k \<noteq> 0" by simp
  show "l c ! k \<le> l ?i ! k \<and> l ?i ! k < r ?i ! k \<and> r ?i ! k \<le> r c ! k"
  proof (cases "max (l c ! k) (l q ! k) \<ge> min (r c ! k) (r q ! k)")
    case True
    with ne k show ?thesis by (simp add: IntersectWith_axis)
  next
    case False
    then have "l c ! k \<le> max (l c ! k) (l q ! k) \<and>
        max (l c ! k) (l q ! k) < min (r c ! k) (r q ! k) \<and>
        min (r c ! k) (r q ! k) \<le> r c ! k"
      by (simp only: not_le max.cobounded1 min.cobounded1 simp_thms)
    with False k show ?thesis by (simp only: IntersectWith_axis if_False)
  qed
qed

lemma foldM_invariant:
  assumes "foldM f xs s = Inr s'" and "P s"
    and "\<And>x t t'. x \<in> set xs \<Longrightarrow> f x t = Inr t' \<Longrightarrow> P t \<Longrightarrow> P t'"
  shows "P s'"
  using assms
proof (induction xs arbitrary: s)
  case Nil
  then show ?case by simp
next
  case (Cons x xs)
  from Cons.prems(1) obtain s1 where x: "f x s = Inr s1" and rest: "foldM f xs s1 = Inr s'"
    by (auto split: sum.splits)
  from Cons.prems(3) [OF _ x Cons.prems(2)] have "P s1" by simp
  moreover have "\<And>y t t'. y \<in> set xs \<Longrightarrow> f y t = Inr t' \<Longrightarrow> P t \<Longrightarrow> P t'"
    using Cons.prems(3) by (meson list.set_intros(2))
  ultimately show ?case by (rule Cons.IH [OF rest])
qed

lemma foldM_each:
  assumes "foldM f xs s = Inr s'" and "P s"
    and "\<And>x t t'. x \<in> set xs \<Longrightarrow> f x t = Inr t' \<Longrightarrow> P t \<Longrightarrow> P t'"
  shows "\<forall>x\<in>set xs. \<exists>t t'. P t \<and> f x t = Inr t'"
  using assms
proof (induction xs arbitrary: s)
  case Nil
  then show ?case by simp
next
  case (Cons x xs)
  from Cons.prems(1) obtain s1 where x: "f x s = Inr s1" and rest: "foldM f xs s1 = Inr s'"
    by (auto split: sum.splits)
  from Cons.prems(3) [OF _ x Cons.prems(2)] have "P s1" by simp
  moreover have "\<And>y t t'. y \<in> set xs \<Longrightarrow> f y t = Inr t' \<Longrightarrow> P t \<Longrightarrow> P t'"
    using Cons.prems(3) by (meson list.set_intros(2))
  ultimately have "\<forall>y\<in>set xs. \<exists>t t'. P t \<and> f y t = Inr t'"
    by (rule Cons.IH [OF rest])
  with x Cons.prems(2) show ?case by auto
qed

lemma sum_loop_bounds:
  "foldM (\<lambda>i sum. if Child n v i < len then Inr (sum + g i) else Inl OutOfBounds) js a = Inr b
     \<Longrightarrow> \<forall>i\<in>set js. Child n v i < len"
proof (induction js arbitrary: a)
  case Nil
  show ?case by simp
next
  case (Cons j js)
  then show ?case by (auto split: sum.splits if_splits)
qed

lemma UpdateValueFromBelow_props:
  assumes "UpdateValueFromBelow n v s = Inr s'"
  shows "agree_on {} s s'" and "v < length (tree s)"
    and "i < 2 ^ n \<Longrightarrow> Child n v i < length (tree s)"
proof -
  from assms obtain sum where
    loop: "foldM (\<lambda>i sum. if Child n v i < length (tree s)
                          then Inr (sum + tree s ! Child n v i) else Inl OutOfBounds)
            [0..<2 ^ n] 0 = Inr sum"
    and set: "set_tree v sum s = Inr s'"
    by (auto simp: UpdateValueFromBelow_def bnd_Inr)
  from set show "agree_on {} s s'" and "v < length (tree s)"
    by (auto simp: set_tree_Inr agree_on_def)
  from sum_loop_bounds [OF loop] show "i < 2 ^ n \<Longrightarrow> Child n v i < length (tree s)"
    by simp
qed

lemma agree_on_empty_trans: "agree_on {} s t \<Longrightarrow> agree_on {} t u \<Longrightarrow> agree_on {} s u"
  by (simp add: agree_on_def)

lemma BuildTreeR_shape:
  "BuildTreeR f n arr d v s = Inr s' \<Longrightarrow> agree_on {} s s'"
proof (induction f arbitrary: d v s s')
  case 0
  then show ?case by simp
next
  case (Suc f)
  show ?case
  proof (cases "IsPoint n d")
    case True
    with Suc.prems show ?thesis
      by (auto simp: Let_def set_tree_Inr agree_on_def split: if_splits)
  next
    case False
    with Suc.prems obtain s1 where
      loop: "foldM (\<lambda>i st. BuildTreeR f n arr (Subdivide n d ! i) (Child n v i) st) [0..<2 ^ n] s
               = Inr s1"
      and up: "UpdateValueFromBelow n v s1 = Inr s'"
      by (auto simp: Let_def bnd_Inr)
    from loop have "agree_on {} s s1"
      by (rule foldM_invariant) (auto simp: agree_on_refl dest: Suc.IH agree_on_empty_trans)
    with UpdateValueFromBelow_props(1) [OF up] show ?thesis
      by (rule agree_on_empty_trans [rotated])
  qed
qed

lemma BuildTreeR_children:
  assumes "BuildTreeR (Suc f) n arr d v s = Inr s'" and "\<not> IsPoint n d" and "i < 2 ^ n"
  shows "Child n v i < length (tree s)"
    and "\<exists>t t'. agree_on {} s t \<and> BuildTreeR f n arr (Subdivide n d ! i) (Child n v i) t = Inr t'"
proof -
  from assms(1,2) obtain s1 where
    loop: "foldM (\<lambda>i st. BuildTreeR f n arr (Subdivide n d ! i) (Child n v i) st) [0..<2 ^ n] s
             = Inr s1"
    and up: "UpdateValueFromBelow n v s1 = Inr s'"
    by (auto simp: Let_def bnd_Inr)
  have step: "agree_on {} s t'"
    if "BuildTreeR f n arr (Subdivide n d ! x) (Child n v x) t = Inr t'" "agree_on {} s t"
    for x t t'
    using that by (auto dest: BuildTreeR_shape agree_on_empty_trans)
  from loop have "agree_on {} s s1"
    by (rule foldM_invariant) (auto simp: agree_on_refl intro: step)
  with UpdateValueFromBelow_props(3) [OF up assms(3)]
  show "Child n v i < length (tree s)" by (simp add: agree_on_def)
  from foldM_each [OF loop, of "agree_on {} s"] step assms(3)
  show "\<exists>t t'. agree_on {} s t \<and> BuildTreeR f n arr (Subdivide n d ! i) (Child n v i) t = Inr t'"
    by (auto simp: agree_on_refl)
qed

lemma Push_child_total:
  assumes "Child n v i < length (tree s)" and "v < length (tree s)"
    and "length (operations s) = length (tree s)"
  shows "\<exists>s'. Push_child n v quads i s = Inr s'"
  using assms
  by (simp add: Push_child_def Let_def bnd_def set_operation_def UpdateValueFromAbove_def
      set_tree_def)

lemma Push_total:
  assumes v: "v < length (tree s)" and len: "length (operations s) = length (tree s)"
    and ch: "\<And>i. i < 2 ^ n \<Longrightarrow> Child n v i < length (tree s)"
  shows "\<exists>s'. Push n v d quads s = Inr s'"
proof -
  have "\<exists>st'. foldM (Push_child n v quads) js st = Inr st'"
    if "set js \<subseteq> {..<2 ^ n}" "agree_on {} s st" for js st
    using that
  proof (induction js arbitrary: st)
    case Nil
    show ?case by simp
  next
    case (Cons j js)
    from Cons.prems v len ch [of j] obtain st1 where j: "Push_child n v quads j st = Inr st1"
      using Push_child_total [of n v j st quads] by (auto simp: agree_on_def)
    from Push_child_props(1,2,5) [OF j] Cons.prems(2) have "agree_on {} s st1"
      by (simp add: agree_on_def)
    from Cons.IH [OF _ this] Cons.prems(1) j show ?case by auto
  qed
  moreover have "set [0..<2 ^ n] \<subseteq> {..<2 ^ n :: nat}" by auto
  ultimately obtain s1 where loop: "foldM (Push_child n v quads) [0..<2 ^ n] s = Inr s1"
    using agree_on_refl by blast
  from Push_loop_props [OF loop] v len
  have "v < length (tree s1)" "v < length (operations s1)" by simp_all
  with loop show ?thesis
    by (simp add: Push_def bnd_def UpdateValueFromAbove_def set_tree_def set_operation_def)
qed

lemma QueryRangeR_returns:
  assumes "BuildTreeR f n arr d v sb = Inr sb'"
    and "length (tree t) = length (tree sb)" and "length (operations t) = length (tree t)"
    and "inside n q d"
  shows "\<exists>x t'. QueryRangeR f n v q d t = Inr (x, t')"
  using assms
proof (induction f arbitrary: d v sb sb' t q)
  case 0
  then show ?case by simp
next
  case (Suc f)
  from BuildTreeR_root_in_bounds [OF Suc.prems(1)] BuildTreeR_shape [OF Suc.prems(1)]
    Suc.prems(2)
  have v: "v < length (tree t)" by (simp add: agree_on_def)
  show ?case
  proof (cases "cube_eq n q d")
    case True
    with v show ?thesis by (simp add: QueryRangeR_Suc)
  next
    case False
    with Suc.prems(4) have np: "\<not> IsPoint n d"
      using inside_point_eq by blast
    let ?quads = "Subdivide n d"
    note B = BuildTreeR_children [OF Suc.prems(1) np]
    from Push_total [OF v Suc.prems(3)] B(1) Suc.prems(2)
    obtain t0 where push: "Push n v d ?quads t = Inr t0" by metis
    have sh0: "agree_on {} t t0"
      using Push_props(1,2,10) [OF push] by (simp add: agree_on_def)
    have "\<exists>b st'. foldM (Query_child f n v q ?quads) js (a, st) = Inr (b, st')"
      if "set js \<subseteq> {..<2 ^ n}" "agree_on {} t st" for js a st
      using that
    proof (induction js arbitrary: a st)
      case Nil
      show ?case by simp
    next
      case (Cons j js)
      have "\<exists>a1 st1. Query_child f n v q ?quads j (a, st) = Inr (a1, st1) \<and> agree_on {} t st1"
      proof (cases "IsEmpty n (IntersectWith n (?quads ! j) q)")
        case True
        with Cons.prems(2) show ?thesis by (simp add: Query_child_Inr)
      next
        case False
        from Cons.prems(1) have j: "j < 2 ^ n" by simp
        from B(2) [OF j] obtain u u' where
          u: "agree_on {} sb u"
          and bu: "BuildTreeR f n arr (?quads ! j) (Child n v j) u = Inr u'"
          by blast
        from u Cons.prems(2) Suc.prems(2,3)
        have "length (tree st) = length (tree u)" "length (operations st) = length (tree st)"
          by (simp_all add: agree_on_def)
        from Suc.IH [OF bu this nonempty_intersection_inside [OF False]]
        obtain x st1 where
          call: "QueryRangeR f n (Child n v j) (IntersectWith n (?quads ! j) q) (?quads ! j) st
                   = Inr (x, st1)"
          by blast
        from QueryRangeR_frame [OF call] Cons.prems(2) have "agree_on {} t st1"
          by (simp add: agree_on_def)
        with call False show ?thesis by (auto simp: Query_child_Inr)
      qed
      then obtain a1 st1 where
        "Query_child f n v q ?quads j (a, st) = Inr (a1, st1)" "agree_on {} t st1"
        by blast
      with Cons.IH [of st1 a1] Cons.prems(1) show ?case by auto
    qed
    moreover have "set [0..<2 ^ n] \<subseteq> {..<2 ^ n :: nat}" by auto
    ultimately obtain b st' where
      "foldM (Query_child f n v q ?quads) [0..<2 ^ n] (0, t0) = Inr (b, st')"
      using sh0 by blast
    with push False show ?thesis
      by (simp add: QueryRangeR_Suc bnd_def)
  qed
qed

lemma EvaluateAny_shape: "EvaluateAny n v d op s = Inr s' \<Longrightarrow> agree_on {} s s'"
  by (auto simp: EvaluateAny_def prim_Inr agree_on_def split: if_splits)

lemma ApplyOperationR_shape:
  "ApplyOperationR f n v q d op s = Inr s' \<Longrightarrow> agree_on {} s s'"
proof (induction f arbitrary: v q d s s')
  case 0
  then show ?case by simp
next
  case (Suc f)
  show ?case
  proof (cases "cube_eq n q d")
    case True
    with Suc.prems show ?thesis by (simp add: EvaluateAny_shape)
  next
    case False
    with Suc.prems obtain s1 s2 where
      push: "Push n v d (Subdivide n d) s = Inr s1"
      and loop: "foldM (\<lambda>i st.
                 let quad = Subdivide n d ! i; query_sub = IntersectWith n quad q in
                 if \<not> IsEmpty n query_sub
                 then ApplyOperationR f n (Child n v i) query_sub quad op st
                 else Inr st) [0..<2 ^ n] s1 = Inr s2"
      and up: "UpdateValueFromBelow n v s2 = Inr s'"
      by (auto simp: Let_def bnd_Inr)
    from Push_props(1,2,10) [OF push] have "agree_on {} s s1"
      by (simp add: agree_on_def)
    with loop have "agree_on {} s s2"
      by (rule foldM_invariant)
         (auto simp: Let_def split: if_splits dest: Suc.IH agree_on_empty_trans)
    with UpdateValueFromBelow_props(1) [OF up] show ?thesis
      by (rule agree_on_empty_trans [rotated])
  qed
qed

lemma reachable_has_build:
  "reachable n s \<Longrightarrow>
     \<exists>f arr sb sb'. BuildTreeR f n arr (entire_domain s) 0 sb = Inr sb' \<and>
       length (tree sb) = length (tree s) \<and> length (operations s) = length (tree s)"
proof (induction rule: reachable.induct)
  case (built fuel arr ds s)
  define s0 where "s0 = \<lparr>entire_domain = \<lparr>l = replicate n 0, r = ds\<rparr>,
              tree = replicate (nat (4 * Volume n \<lparr>l = replicate n 0, r = ds\<rparr>)) 0,
              operations = replicate (nat (4 * Volume n \<lparr>l = replicate n 0, r = ds\<rparr>))
                 \<lparr>reset_pending = False, to_add = 0\<rparr>\<rparr>"
  from built have b: "BuildTreeR fuel n arr (entire_domain s0) 0 s0 = Inr s"
    by (simp add: SegmentTree_def BuildTree_def Let_def dims_def s0_def split: if_splits)
  have len0: "length (operations s0) = length (tree s0)"
    by (simp add: s0_def)
  from BuildTreeR_shape [OF b] have sh: "entire_domain s0 = entire_domain s"
    "length (tree s0) = length (tree s)" "length (operations s0) = length (operations s)"
    by (simp_all add: agree_on_def)
  from b have "BuildTreeR fuel n arr (entire_domain s) 0 s0 = Inr s"
    by (simp only: sh(1))
  moreover from len0 sh(2,3) have "length (operations s) = length (tree s)" by simp
  ultimately show ?case using sh(2) by blast
next
  case (applied s fuel D op s')
  from applied.hyps(2) have "agree_on {} s s'"
    by (auto simp: ApplyToRange_def dest: ApplyOperationR_shape)
  with applied.IH show ?case by (simp add: agree_on_def)
next
  case (queried s fuel D x s')
  from queried.hyps(2) have "agree_on {} s s'"
    by (auto simp: QueryRange_def dest: QueryRangeR_frame agree_on_mono)
  with queried.IH show ?case by (simp add: agree_on_def)
qed

lemma query_returns:
  assumes "reachable n s" and "inside n D (entire_domain s)"
  shows "\<exists>fuel x s1. QueryRange fuel n D s = Inr (x, s1)"
proof -
  from reachable_has_build [OF assms(1)] obtain f arr sb sb' where
    "BuildTreeR f n arr (entire_domain s) 0 sb = Inr sb'"
    "length (tree s) = length (tree sb)" "length (operations s) = length (tree s)"
    by auto
  from QueryRangeR_returns [OF this assms(2)] show ?thesis
    by (auto simp: QueryRange_def)
qed

section \<open>Asking again\<close>

text \<open>
  Whenever \<open>query_range(D)\<close> returns a value, the same call made next, with no mutation in
  between, returns the same value, and leaves the state as the first call left it; this
  holds in every state and for every \<open>D\<close>. And in a reachable state the query of a non-empty
  \<open>D\<close> inside the entire domain does return, given enough fuel.
\<close>

lemma requery_same:
  "(QueryRange fuel n D s = Inr (x, s1) \<longrightarrow> QueryRange fuel n D s1 = Inr (x, s1)) \<and>
   (reachable n s \<and> inside n D (entire_domain s) \<longrightarrow>
      (\<exists>fuel x s1. QueryRange fuel n D s = Inr (x, s1)))"
proof (intro conjI impI)
  assume "QueryRange fuel n D s = Inr (x, s1)"
  then have q: "QueryRangeR fuel n 0 D (entire_domain s) s = Inr (x, s1)"
    by (simp add: QueryRange_def)
  from QueryRangeR_frame [OF q] have "entire_domain s1 = entire_domain s"
    by (simp add: agree_on_def)
  with QueryRangeR_again [OF q agree_on_refl] show "QueryRange fuel n D s1 = Inr (x, s1)"
    by (simp add: QueryRange_def)
next
  assume "reachable n s \<and> inside n D (entire_domain s)"
  then show "\<exists>fuel x s1. QueryRange fuel n D s = Inr (x, s1)"
    by (simp add: query_returns)
qed

lemma requery_same_example:
  "reachable 1 st_added \<and> inside 1 \<lparr>l = [0], r = [1]\<rparr> (entire_domain st_added) \<and>
   QueryRange 2 1 \<lparr>l = [0], r = [1]\<rparr> st_added = Inr (4, st_pushed) \<and>
   QueryRange 2 1 \<lparr>l = [0], r = [1]\<rparr> st_pushed = Inr (4, st_pushed) \<and>
   (\<exists>fuel x s1. QueryRange fuel 1 \<lparr>l = [0], r = [1]\<rparr> st_added = Inr (x, s1))"
proof -
  have "SegmentTree 2 1 [3, 4] [2] = Inr st_built"
    by code_simp
  then have "reachable 1 st_built"
    by (rule reachable.built)
  moreover have "ApplyToRange 2 1 \<lparr>l = [0], r = [2]\<rparr> \<lparr>reset_pending = False, to_add = 1\<rparr> st_built
      = Inr st_added"
    by code_simp
  ultimately have re: "reachable 1 st_added"
    by (rule reachable.applied)
  have ins: "inside 1 \<lparr>l = [0], r = [1]\<rparr> (entire_domain st_added)"
    by code_simp
  have h: "QueryRange 2 1 \<lparr>l = [0], r = [1]\<rparr> st_added = Inr (4, st_pushed)"
    by code_simp
  from requery_same [of 2 1 "\<lparr>l = [0], r = [1]\<rparr>" st_added 4 st_pushed] re ins h
  show ?thesis by blast
qed

text \<open>
  Claim C7 (two queries of the same \<open>D\<close> in a row return the same value: the pushdown of the
  first query does not alter any observable sum). The code at \<open>n = 1\<close>, \<open>dims = [2]\<close>,
  \<open>arr = [3, 4]\<close>, after \<open>add_range([0,2), 1)\<close>: \<open>query_range([0,2))\<close> returns 9, then
  \<open>query_range([0,1))\<close> returns 4, and then \<open>query_range([0,2))\<close> returns 11. The pushdown
  of the query of \<open>[0,1)\<close> has altered the sum observed over \<open>[0,2)\<close>, with no mutation in
  between: \<^verbatim>\<open>Push\<close> applies to the value of the root the addition that \<^verbatim>\<open>EvaluateAny\<close> had
  already applied.
\<close>

theorem pushdown_alters_other_sum:
  "bnd (SegmentTree 2 1 [3, 4] [2]) (\<lambda>s.
   bnd (AddToRange 2 1 \<lparr>l = [0], r = [2]\<rparr> 1 s) (\<lambda>s.
   bnd (QueryRange 2 1 \<lparr>l = [0], r = [2]\<rparr> s) (\<lambda>(a, s).
   bnd (QueryRange 2 1 \<lparr>l = [0], r = [1]\<rparr> s) (\<lambda>(b, s).
   bnd (QueryRange 2 1 \<lparr>l = [0], r = [2]\<rparr> s) (\<lambda>(c, s).
   Inr (a, b, c)))))) = Inr (9, 4, 11)"
  by code_simp

section \<open>Arrays of the wrong length\<close>

text \<open>
  Claim C9 as stated (an array whose length is not the product of the extents makes the
  construction report a failure) is false: with \<open>n = 1\<close>, \<open>dims = [1]\<close> and the array
  \<open>[5, 6]\<close> of length 2 the constructor returns a structure.
\<close>

theorem longer_array_is_accepted:
  "int (length [5, 6 :: int]) \<noteq> prod_list [1] \<and>
   SegmentTree 1 1 [5, 6] [1] =
     Inr \<lparr>entire_domain = \<lparr>l = [0], r = [1]\<rparr>, tree = [5, 0, 0, 0],
          operations = replicate 4 \<lparr>reset_pending = False, to_add = 0\<rparr>\<rparr>"
  by code_simp

lemma foldM_mono:
  assumes "\<And>x s s'. x \<in> set xs \<Longrightarrow> f x s = Inr s' \<Longrightarrow> g x s = Inr s'"
    and "foldM f xs s = Inr s'"
  shows "foldM g xs s = Inr s'"
  using assms
proof (induction xs arbitrary: s)
  case Nil
  then show ?case by simp
next
  case (Cons x xs)
  from Cons.prems(2) obtain s1 where "f x s = Inr s1" and "foldM f xs s1 = Inr s'"
    by (auto split: sum.splits)
  with Cons.IH [of s1] Cons.prems(1) show ?case by simp
qed

lemma BuildTreeR_append:
  "BuildTreeR f n arr d v s = Inr s' \<Longrightarrow> BuildTreeR f n (arr @ extra) d v s = Inr s'"
proof (induction f arbitrary: d v s s')
  case 0
  then show ?case by simp
next
  case (Suc f)
  show ?case
  proof (cases "IsPoint n d")
    case True
    with Suc.prems show ?thesis
      by (auto simp: Let_def nth_append split: if_splits)
  next
    case False
    with Suc.prems obtain s1 where
      loop: "foldM (\<lambda>i st. BuildTreeR f n arr (Subdivide n d ! i) (Child n v i) st) [0..<2 ^ n] s
               = Inr s1"
      and up: "UpdateValueFromBelow n v s1 = Inr s'"
      by (auto simp: Let_def bnd_Inr)
    from loop have
      "foldM (\<lambda>i st. BuildTreeR f n (arr @ extra) (Subdivide n d ! i) (Child n v i) st)
         [0..<2 ^ n] s = Inr s1"
      by (rule foldM_mono [rotated]) (rule Suc.IH)
    with up False show ?thesis by (simp add: Let_def bnd_def)
  qed
qed

text \<open>
  Claim C9, amended. The constructor does not compare the length of the array with the
  product of the extents and reports no failure of its own: whenever the construction from
  an array returns a structure, the construction from any longer array with the same
  extents returns the same structure; the entries beyond are never read.
\<close>

theorem longer_array_same_structure:
  assumes "SegmentTree fuel n arr ds = Inr s"
  shows "SegmentTree fuel n (arr @ extra) ds = Inr s"
  using assms
  by (auto simp: SegmentTree_def BuildTree_def Let_def split: if_splits intro: BuildTreeR_append)

theorem longer_array_same_structure_witness:
  "SegmentTree 1 1 [5] [1] =
     Inr \<lparr>entire_domain = \<lparr>l = [0], r = [1]\<rparr>, tree = [5, 0, 0, 0],
          operations = replicate 4 \<lparr>reset_pending = False, to_add = 0\<rparr>\<rparr> \<and>
   SegmentTree 1 1 ([5] @ [6]) [1] =
     Inr \<lparr>entire_domain = \<lparr>l = [0], r = [1]\<rparr>, tree = [5, 0, 0, 0],
          operations = replicate 4 \<lparr>reset_pending = False, to_add = 0\<rparr>\<rparr>"
proof -
  have h: "SegmentTree 1 1 [5] [1] =
     Inr \<lparr>entire_domain = \<lparr>l = [0], r = [1]\<rparr>, tree = [5, 0, 0, 0],
          operations = replicate 4 \<lparr>reset_pending = False, to_add = 0\<rparr>\<rparr>"
    by code_simp
  show ?thesis
    by (rule conjI [OF h longer_array_same_structure [OF h]])
qed

end
